theory Spec2Isabelle
  imports Main
begin

section \<open>Strings and characters of the validator\<close>

text \<open>
  The program is \<^verbatim>\<open>scripts/validate_swift_structure.py\<close>. A text is a Python \<^verbatim>\<open>str\<close>;
  it is modelled as a \<^typ>\<open>string\<close>, each \<^typ>\<open>char\<close> standing for the code point of the
  same number (0 to 255); a text with a code point above 255 is outside the model. A path
  is the string that \<^verbatim>\<open>str(path)\<close> gives.
\<close>

type_synonym path = string

definition ord :: "char \<Rightarrow> nat" where
  "ord c = of_char c"

definition chr :: "nat \<Rightarrow> char" where
  "chr n = char_of n"

text \<open>\<^verbatim>\<open>str(i)\<close> of a non-negative integer, as the f-strings render an offset.\<close>

fun str_nat :: "nat \<Rightarrow> string" where
  "str_nat n = (if n < 10 then [chr (48 + n)] else str_nat (n div 10) @ [chr (48 + n mod 10)])"

declare str_nat.simps [simp del]

text \<open>\<^verbatim>\<open>needle in hay\<close> on strings, \<^verbatim>\<open>s.startswith(p)\<close> and \<^verbatim>\<open>s.endswith(p)\<close>.\<close>

fun startswith :: "string \<Rightarrow> string \<Rightarrow> bool" where
  "startswith s [] = True"
| "startswith [] (p # ps) = False"
| "startswith (c # cs) (p # ps) = (c = p \<and> startswith cs ps)"

fun str_in :: "string \<Rightarrow> string \<Rightarrow> bool" where
  "str_in needle [] = (needle = [])"
| "str_in needle (c # cs) = (startswith (c # cs) needle \<or> str_in needle cs)"

definition endswith :: "string \<Rightarrow> string \<Rightarrow> bool" where
  "endswith s p = startswith (rev s) (rev p)"

section \<open>The delimiter tables\<close>

text \<open>
  \<^verbatim>\<open>PAIR = {')':'(', '}':'{', ']':'['}\<close>, \<^verbatim>\<open>OPEN = set(PAIR.values())\<close>,
  \<^verbatim>\<open>CLOSE = set(PAIR.keys())\<close>. The dictionary is kept as its list of items; a lookup is
  \<^const>\<open>map_of\<close>.
\<close>

definition PAIR_items :: "(char \<times> char) list" where
  "PAIR_items = [(CHR '')'', CHR ''(''), (CHR ''}'', CHR ''{''), (CHR '']'', CHR ''['')]"

definition PAIR :: "char \<Rightarrow> char option" where
  "PAIR = map_of PAIR_items"

definition OPEN :: "char set" where
  "OPEN = set (map snd PAIR_items)"

definition CLOSE :: "char set" where
  "CLOSE = set (map fst PAIR_items)"

section \<open>The balance pass of \<^verbatim>\<open>check_file\<close>\<close>

text \<open>
  The global list \<^verbatim>\<open>errors\<close> is passed in and returned. The stack is a Python list:
  \<^verbatim>\<open>append\<close> adds at the end, \<^verbatim>\<open>stack[-1]\<close> is \<^const>\<open>last\<close>, \<^verbatim>\<open>pop()\<close> is \<^const>\<open>butlast\<close>.
  The loop \<^verbatim>\<open>for i, ch in enumerate(text)\<close> is a recursion on the rest of the text with the
  offset \<open>i\<close>; \<^verbatim>\<open>break\<close> returns at once with the stack as it stands.
\<close>

definition mismatch_msg :: "path \<Rightarrow> nat \<Rightarrow> string" where
  "mismatch_msg path i = path @ '': Unbalanced or mismatched bracket around offset '' @ str_nat i"

definition open_msg :: "path \<Rightarrow> char list \<Rightarrow> string" where
  "open_msg path stack = path @ '': Unbalanced brackets, open='' @ stack"

fun balance_loop :: "path \<Rightarrow> nat \<Rightarrow> string \<Rightarrow> char list \<Rightarrow> string list \<Rightarrow> char list \<times> string list" where
  "balance_loop path i [] stack errors = (stack, errors)"
| "balance_loop path i (ch # rest) stack errors =
     (if ch \<in> OPEN then balance_loop path (i + 1) rest (stack @ [ch]) errors
      else if ch \<in> CLOSE then
        (if stack = [] \<or> Some (last stack) \<noteq> PAIR ch
         then (stack, errors @ [mismatch_msg path i])
         else balance_loop path (i + 1) rest (butlast stack) errors)
      else balance_loop path (i + 1) rest stack errors)"

definition balance_check :: "path \<Rightarrow> string \<Rightarrow> string list \<Rightarrow> string list" where
  "balance_check path text errors =
     (case balance_loop path 0 text [] errors of
        (stack, errors') \<Rightarrow> if stack \<noteq> [] then errors' @ [open_msg path stack] else errors')"

section \<open>Character classes and string methods of Python\<close>

text \<open>
  The classes that \<^verbatim>\<open>re\<close> and \<^verbatim>\<open>str\<close> use on a \<^verbatim>\<open>str\<close>, written out for the code points
  0 to 255: \<^verbatim>\<open>\s\<close>, \<^verbatim>\<open>\w\<close>, the line boundaries of \<^verbatim>\<open>splitlines\<close> and the letters that
  \<^verbatim>\<open>lower\<close> changes.
\<close>

definition in_range :: "char \<Rightarrow> nat \<Rightarrow> nat \<Rightarrow> bool" where
  "in_range c lo hi = (lo \<le> ord c \<and> ord c \<le> hi)"

definition is_space :: "char \<Rightarrow> bool" where
  "is_space c = (in_range c 0x09 0x0D \<or> in_range c 0x1C 0x20 \<or> ord c = 0x85 \<or> ord c = 0xA0)"

definition is_word :: "char \<Rightarrow> bool" where
  "is_word c =
     (in_range c 0x30 0x39 \<or> in_range c 0x41 0x5A \<or> ord c = 0x5F \<or> in_range c 0x61 0x7A
      \<or> ord c = 0xAA \<or> in_range c 0xB2 0xB3 \<or> ord c = 0xB5 \<or> in_range c 0xB9 0xBA
      \<or> in_range c 0xBC 0xBE \<or> in_range c 0xC0 0xD6 \<or> in_range c 0xD8 0xF6
      \<or> in_range c 0xF8 0xFF)"

definition is_linebreak :: "char \<Rightarrow> bool" where
  "is_linebreak c = (in_range c 0x0A 0x0D \<or> in_range c 0x1C 0x1E \<or> ord c = 0x85)"

definition lower_char :: "char \<Rightarrow> char" where
  "lower_char c =
     (if in_range c 0x41 0x5A \<or> in_range c 0xC0 0xD6 \<or> in_range c 0xD8 0xDE
      then chr (ord c + 32) else c)"

definition lower :: "string \<Rightarrow> string" where
  "lower s = map lower_char s"

text \<open>
  \<^verbatim>\<open>text.splitlines()\<close>: a line ends at a line boundary, \<^verbatim>\<open>\r\n\<close> counting as one, and
  the boundary is dropped; there is no empty last line. \<open>cur\<close> is the line being read.
\<close>

fun splitlines_from :: "string \<Rightarrow> string \<Rightarrow> string list" where
  "splitlines_from cur [] = (if cur = [] then [] else [cur])"
| "splitlines_from cur (c # cs) =
     (if is_linebreak c then
        (case cs of
           d # ds \<Rightarrow> if ord c = 0x0D \<and> ord d = 0x0A then cur # splitlines_from [] ds
                     else cur # splitlines_from [] cs
         | [] \<Rightarrow> cur # splitlines_from [] cs)
      else splitlines_from (cur @ [c]) cs)"

definition splitlines :: "string \<Rightarrow> string list" where
  "splitlines s = splitlines_from [] s"

section \<open>Regular expressions\<close>

text \<open>
  The part of \<^verbatim>\<open>re\<close> that the two patterns of the program use. A pattern is matched at a
  position of the whole text, so that \<^verbatim>\<open>\b\<close> sees the character before the position.
  \<open>rx_match\<close> lists the ways a pattern matches at a position, each with the position it ends
  at and the groups closed so far, in the order a backtracking matcher tries them: the
  alternatives of \<^verbatim>\<open>|\<close> from left to right, a greedy repetition from the longest down.
  The head of the list is the match that \<^verbatim>\<open>re\<close> returns.
\<close>

datatype rx =
    Lit string
  | In "char \<Rightarrow> bool"
  | Star "char \<Rightarrow> bool"
  | Plus "char \<Rightarrow> bool"
  | WordB
  | Bol
  | Alt "rx list"
  | Seq "rx list"
  | Group rx

definition word_at :: "string \<Rightarrow> nat \<Rightarrow> bool" where
  "word_at text pos = (pos < length text \<and> is_word (text ! pos))"

definition word_before :: "string \<Rightarrow> nat \<Rightarrow> bool" where
  "word_before text pos = (0 < pos \<and> word_at text (pos - 1))"

fun rx_match :: "rx \<Rightarrow> string \<Rightarrow> nat \<Rightarrow> string list \<Rightarrow> (nat \<times> string list) list" where
  "rx_match (Lit s) text pos gs =
     (if startswith (drop pos text) s then [(pos + length s, gs)] else [])"
| "rx_match (In P) text pos gs =
     (if pos < length text \<and> P (text ! pos) then [(pos + 1, gs)] else [])"
| "rx_match (Star P) text pos gs =
     map (\<lambda>k. (pos + k, gs)) (rev [0 ..< Suc (length (takeWhile P (drop pos text)))])"
| "rx_match (Plus P) text pos gs =
     map (\<lambda>k. (pos + k, gs)) (rev [1 ..< Suc (length (takeWhile P (drop pos text)))])"
| "rx_match WordB text pos gs =
     (if word_before text pos \<noteq> word_at text pos then [(pos, gs)] else [])"
| "rx_match Bol text pos gs = (if pos = 0 then [(pos, gs)] else [])"
| "rx_match (Alt rs) text pos gs = concat (map (\<lambda>r. rx_match r text pos gs) rs)"
| "rx_match (Seq []) text pos gs = [(pos, gs)]"
| "rx_match (Seq (r # rs)) text pos gs =
     concat (map (\<lambda>(p, g). rx_match (Seq rs) text p g) (rx_match r text pos gs))"
| "rx_match (Group r) text pos gs =
     map (\<lambda>(e, g). (e, g @ [take (e - pos) (drop pos text)])) (rx_match r text pos gs)"

text \<open>
  \<^verbatim>\<open>pattern.search(text)\<close>: the first position, from 0 to the end of the text, where the
  pattern matches, with the end of the match and its groups; \<open>None\<close> when there is none.
\<close>

definition rx_search :: "rx \<Rightarrow> string \<Rightarrow> (nat \<times> nat \<times> string list) option" where
  "rx_search r text =
     (case find (\<lambda>pos. rx_match r text pos [] \<noteq> []) [0 ..< Suc (length text)] of
        None \<Rightarrow> None
      | Some pos \<Rightarrow> Some (pos, hd (rx_match r text pos [])))"

text \<open>
  \<^verbatim>\<open>pattern.finditer(text)\<close>: the matches from left to right, none overlapping another; the
  search goes on where the last match ended. Each match is its start and its groups. (After
  an empty match the search moves on by one character; the patterns of the program have no
  empty match.)
\<close>

function finditer_from :: "rx \<Rightarrow> string \<Rightarrow> nat \<Rightarrow> (nat \<times> string list) list" where
  "finditer_from r text pos =
     (if length text < pos then []
      else case rx_match r text pos [] of
             [] \<Rightarrow> finditer_from r text (pos + 1)
           | (e, gs) # _ \<Rightarrow> (pos, gs) # finditer_from r text (if pos < e then e else pos + 1))"
  by pat_completeness auto
termination
  by (relation "measure (\<lambda>(r, text, pos). Suc (length text) - pos)") auto

declare finditer_from.simps [simp del]

definition finditer :: "rx \<Rightarrow> string \<Rightarrow> (nat \<times> string list) list" where
  "finditer r text = finditer_from r text 0"

text \<open>\<^verbatim>\<open>m.group(n)\<close> for the groups of a match, numbered from 1.\<close>

definition group :: "string list \<Rightarrow> nat \<Rightarrow> string" where
  "group gs n = gs ! (n - 1)"

text \<open>
  \<^verbatim>\<open>TYPE_RE = re.compile(r'\b(struct|class|enum)\s+([A-Za-z_][A-Za-z0-9_]*)\b')\<close> and
  \<^verbatim>\<open>TOP_PRIVATE_RE = re.compile(r'^\s*private\s+(struct|class|enum|func|var|let)\b')\<close>.
\<close>

definition ident_start :: "char \<Rightarrow> bool" where
  "ident_start c = (in_range c 0x41 0x5A \<or> in_range c 0x61 0x7A \<or> ord c = 0x5F)"

definition ident_char :: "char \<Rightarrow> bool" where
  "ident_char c = (in_range c 0x41 0x5A \<or> in_range c 0x61 0x7A \<or> in_range c 0x30 0x39 \<or> ord c = 0x5F)"

definition TYPE_RE :: rx where
  "TYPE_RE = Seq [WordB, Group (Alt [Lit ''struct'', Lit ''class'', Lit ''enum'']), Plus is_space,
                  Group (Seq [In ident_start, Star ident_char]), WordB]"

definition TOP_PRIVATE_RE :: rx where
  "TOP_PRIVATE_RE = Seq [Bol, Star is_space, Lit ''private'', Plus is_space,
       Group (Alt [Lit ''struct'', Lit ''class'', Lit ''enum'', Lit ''func'', Lit ''var'', Lit ''let'']),
       WordB]"

section \<open>The duplicate-name pass and the private-declaration pass of \<^verbatim>\<open>check_file\<close>\<close>

text \<open>
  \<^verbatim>\<open>names\<close> is a dictionary from a name to the list of its occurrences; a Python dictionary
  keeps its keys in the order they were first inserted, and the second loop reads it in that
  order, so it is an association list. \<^verbatim>\<open>names.setdefault(k, []).append(v)\<close> appends
  to the list of a key that is there and adds a new key at the end.
\<close>

type_synonym names = "(string \<times> (string \<times> nat) list) list"

definition setdefault_append :: "names \<Rightarrow> string \<Rightarrow> string \<times> nat \<Rightarrow> names" where
  "setdefault_append names k v =
     (if k \<in> fst ` set names
      then map (\<lambda>(k', occ). if k' = k then (k', occ @ [v]) else (k', occ)) names
      else names @ [(k, [v])])"

fun collect_names :: "(nat \<times> string list) list \<Rightarrow> names \<Rightarrow> names" where
  "collect_names [] names = names"
| "collect_names ((start, gs) # ms) names =
     collect_names ms (setdefault_append names (group gs 2) (group gs 1, start))"

definition duplicate_msg :: "path \<Rightarrow> string \<Rightarrow> string" where
  "duplicate_msg path name = path @ '': Duplicate type name detected: '' @ name"

fun report_duplicates :: "path \<Rightarrow> names \<Rightarrow> string list \<Rightarrow> string list" where
  "report_duplicates path [] errors = errors"
| "report_duplicates path ((name, occ) # items) errors =
     report_duplicates path items
       (if length occ > 1 then errors @ [duplicate_msg path name] else errors)"

definition duplicate_check :: "path \<Rightarrow> string \<Rightarrow> string list \<Rightarrow> string list" where
  "duplicate_check path text errors =
     report_duplicates path (collect_names (finditer TYPE_RE text) []) errors"

definition private_msg :: "path \<Rightarrow> string" where
  "private_msg path = path @
     '': Many top-level private declarations (>=3). Possible premature closing brace in a View.''"

fun count_top_privates :: "string list \<Rightarrow> nat \<Rightarrow> nat" where
  "count_top_privates [] top_privates = top_privates"
| "count_top_privates (line # lines) top_privates =
     count_top_privates lines
       (if rx_search TOP_PRIVATE_RE line \<noteq> None then top_privates + 1 else top_privates)"

definition private_check :: "path \<Rightarrow> string \<Rightarrow> string list \<Rightarrow> string list" where
  "private_check path text errors =
     (if count_top_privates (splitlines text) 0 \<ge> 3 then errors @ [private_msg path] else errors)"

section \<open>\<^verbatim>\<open>check_file\<close>, \<^verbatim>\<open>walk\<close> and the run of the program\<close>

text \<open>
  The file system is what the program asks of it: \<^verbatim>\<open>target.is_file()\<close>, the paths that
  \<^verbatim>\<open>target.rglob('*.swift')\<close> yields, in the order it yields them, and the text that
  \<^verbatim>\<open>path.read_text(encoding='utf-8', errors='ignore')\<close> returns (the read itself is taken
  to succeed: the source has no handler for an error of the operating system, and a run
  that such an error ends is outside the model). The state of a run is the global list
  \<^verbatim>\<open>errors\<close> and the trace of what the run has done so far: the files it has read and the
  lines it has printed on standard output.
\<close>

record fs =
  is_file :: "path \<Rightarrow> bool"
  rglob_swift :: "path \<Rightarrow> path list"
  read_text :: "path \<Rightarrow> string"

datatype event = ReadText path | Print string

record state =
  errors :: "string list"
  trace :: "event list"

text \<open>\<^verbatim>\<open>path.name\<close>: the last component of the path.\<close>

definition path_name :: "path \<Rightarrow> string" where
  "path_name p = rev (takeWhile (\<lambda>c. c \<noteq> CHR ''/'') (rev p))"

definition check_file :: "fs \<Rightarrow> path \<Rightarrow> state \<Rightarrow> state" where
  "check_file env path st =
     (if \<not> endswith (path_name path) ''.swift'' then st
      else
        let text = read_text env path;
            st1 = st\<lparr>trace := trace st @ [ReadText path]\<rparr>
        in if str_in ''swiftlint:disable all'' (lower text) then st1
           else st1\<lparr>errors :=
                  private_check path text
                    (duplicate_check path text
                      (balance_check path text (errors st1)))\<rparr>)"

fun check_files :: "fs \<Rightarrow> path list \<Rightarrow> state \<Rightarrow> state" where
  "check_files env [] st = st"
| "check_files env (p # ps) st = check_files env ps (check_file env p st)"

definition walk :: "fs \<Rightarrow> path \<Rightarrow> state \<Rightarrow> state" where
  "walk env target st =
     (if is_file env target then check_file env target st
      else check_files env (rglob_swift env target) st)"

text \<open>
  \<^verbatim>\<open>Path(arg)\<close> of a command-line argument. The arguments are taken in the form \<^verbatim>\<open>pathlib\<close>
  prints them in (no doubled or trailing slash, no \<^verbatim>\<open>.\<close> component).
\<close>

definition Path :: "string \<Rightarrow> path" where
  "Path arg = arg"

fun walk_args :: "fs \<Rightarrow> string list \<Rightarrow> state \<Rightarrow> state" where
  "walk_args env [] st = st"
| "walk_args env (arg # args) st = walk_args env args (walk env (Path arg) st)"

fun print_errors :: "string list \<Rightarrow> event list \<Rightarrow> event list" where
  "print_errors [] tr = tr"
| "print_errors (e # es) tr = print_errors es (tr @ [Print (''STRUCTURE: '' @ e)])"

definition usage_line :: string where
  "usage_line = ''Usage: validate_swift_structure.py <dir_or_file>''"

definition completion_line :: string where
  "completion_line = ''Structure check completed (warnings may be shown)''"

text \<open>
  The module run as a script: \<open>argv\<close> is \<^verbatim>\<open>sys.argv\<close>, the result is the trace of the run
  and the exit status of the process (\<^verbatim>\<open>sys.exit(2)\<close> ends the run at once; a run that
  reaches the end of the module ends with status 0).
\<close>

definition main :: "fs \<Rightarrow> string list \<Rightarrow> event list \<times> nat" where
  "main env argv =
     (if length argv < 2 then ([Print usage_line], 2)
      else
        let st = walk_args env (tl argv) \<lparr>errors = [], trace = []\<rparr>;
            tr = (if errors st \<noteq> [] then print_errors (errors st) (trace st) else trace st)
        in (tr @ [Print completion_line], 0))"


section \<open>Balanced texts\<close>

text \<open>
  The texts whose delimiters are balanced and correctly nested: the empty text, a character
  that is no delimiter, a balanced text between an opener and its own closer, and two
  balanced texts one after the other.
\<close>

inductive balanced :: "string \<Rightarrow> bool" where
  bal_empty: "balanced []"
| bal_other: "c \<notin> OPEN \<Longrightarrow> c \<notin> CLOSE \<Longrightarrow> balanced [c]"
| bal_wrap: "balanced w \<Longrightarrow> (cl, opn) \<in> set PAIR_items \<Longrightarrow> balanced ([opn] @ w @ [cl])"
| bal_seq: "balanced v \<Longrightarrow> balanced w \<Longrightarrow> balanced (v @ w)"

text \<open>
  The names that \<^verbatim>\<open>TYPE_RE.finditer(text)\<close> matches, one for each match, in order, and
  the number of occurrences that the dictionary \<^verbatim>\<open>names\<close> holds for a name.
\<close>

definition occ_count :: "names \<Rightarrow> string \<Rightarrow> nat" where
  "occ_count names n = (case map_of names n of None \<Rightarrow> 0 | Some occ \<Rightarrow> length occ)"

definition matched_names :: "string \<Rightarrow> string list" where
  "matched_names text = map (\<lambda>(start, gs). group gs 2) (finditer TYPE_RE text)"

text \<open>
  The lines that the private-declaration heuristic is meant to count, in the words of its
  description: after leading whitespace the line begins with the keyword \<^verbatim>\<open>private\<close>,
  then whitespace, then one of the declaration keywords, and the keyword ends there (the
  line ends, or a character follows that cannot continue a word).
\<close>

definition decl_keywords :: "string list" where
  "decl_keywords = [''struct'', ''class'', ''enum'', ''func'', ''var'', ''let'']"

definition top_private_line :: "string \<Rightarrow> bool" where
  "top_private_line line \<longleftrightarrow>
     (\<exists>ws sep kw rest.
        line = ws @ ''private'' @ sep @ kw @ rest
        \<and> list_all is_space ws
        \<and> sep \<noteq> [] \<and> list_all is_space sep
        \<and> kw \<in> set decl_keywords
        \<and> (rest = [] \<or> \<not> is_word (hd rest)))"

text \<open>
  A text spells a marker in some letter casing when it has the marker's characters one by
  one, each either as it is in the marker or, for a lower-case letter \<^verbatim>\<open>a\<close> to \<^verbatim>\<open>z\<close> of the
  marker, as the upper-case letter.
\<close>

definition letter_case_variant :: "char \<Rightarrow> char \<Rightarrow> bool" where
  "letter_case_variant c d \<longleftrightarrow> c = d \<or> (in_range d 0x61 0x7A \<and> ord c + 32 = ord d)"

definition spells :: "string \<Rightarrow> string \<Rightarrow> bool" where
  "spells m marker = list_all2 letter_case_variant m marker"



text \<open>Example file systems: every path is a regular file with the same text.\<close>

definition single_text :: "string \<Rightarrow> fs" where
  "single_text t = \<lparr>is_file = (\<lambda>p. True), rglob_swift = (\<lambda>p. []), read_text = (\<lambda>p. t)\<rparr>"

definition broken_text :: string where
  "broken_text = ''struct A { struct A (''"

definition generated_text :: string where
  "generated_text = ''// '' @ ''SwiftLint:DISABLE All'' @ (CHR 0x0A # broken_text)"



text \<open>An example file system: two source files, the first with an open parenthesis.\<close>

definition two_files :: fs where
  "two_files = \<lparr>is_file = (\<lambda>p. True), rglob_swift = (\<lambda>p. []),
                 read_text = (\<lambda>p. if p = ''a.swift'' then ''f('' else ''let x = 1'')\<rparr>"

text \<open>The keywords of \<^verbatim>\<open>TYPE_RE\<close>, and the value of a string of decimal digits.\<close>

definition type_keywords :: "string list" where
  "type_keywords = [''struct'', ''class'', ''enum'']"

definition decimal_value :: "string \<Rightarrow> nat" where
  "decimal_value s = foldl (\<lambda>a c. 10 * a + (ord c - 48)) 0 s"

section \<open>Facts about the tables and the string helpers\<close>

lemma OPEN_eq: "OPEN = {CHR ''('', CHR ''{'', CHR ''[''}"
  by (auto simp: OPEN_def PAIR_items_def)

lemma CLOSE_eq: "CLOSE = {CHR '')'', CHR ''}'', CHR '']''}"
  by (auto simp: CLOSE_def PAIR_items_def)


lemma PAIR_items_cases:
  "(cl, opn) \<in> set PAIR_items \<Longrightarrow> opn \<in> OPEN \<and> cl \<in> CLOSE \<and> cl \<notin> OPEN \<and> PAIR cl = Some opn"
  by (auto simp: PAIR_items_def OPEN_def CLOSE_def PAIR_def)

lemma startswith_append: "startswith (p @ s) p"
  by (induction p) auto

lemma str_in_self_append: "str_in needle (needle @ s)"
  by (cases "needle @ s") (auto simp: startswith_append simp del: startswith.simps dest: sym)

lemma str_in_append_left: "str_in needle s \<Longrightarrow> str_in needle (p @ s)"
proof (induction p)
  case Nil
  then show ?case by simp
next
  case (Cons c p)
  then show ?case by simp
qed

section \<open>The balance pass: a prefix scanned without a mismatch\<close>

lemma balance_loop_errors:
  "balance_loop path i t stack errs = (stack', errs') \<Longrightarrow>
   errs' = errs \<or> (\<exists>m. errs' = errs @ [m])"
  by (induction t arbitrary: i stack) (auto split: if_splits)


lemma balanced_loop_skip:
  "balanced w \<Longrightarrow>
   balance_loop path i (w @ rest) stack errs = balance_loop path (i + length w) rest stack errs"
proof (induction w arbitrary: i rest stack rule: balanced.induct)
  case bal_empty
  show ?case by simp
next
  case (bal_other c)
  then show ?case by simp
next
  case (bal_wrap w cl opn)
  from bal_wrap.hyps(2) have t: "opn \<in> OPEN" "cl \<in> CLOSE" "cl \<notin> OPEN" "PAIR cl = Some opn"
    using PAIR_items_cases by blast+
  have "balance_loop path i (([opn] @ w @ [cl]) @ rest) stack errs
      = balance_loop path (i + 1) (w @ (cl # rest)) (stack @ [opn]) errs"
    using t(1) by simp
  also have "\<dots> = balance_loop path (i + 1 + length w) (cl # rest) (stack @ [opn]) errs"
    by (rule bal_wrap.IH)
  also have "\<dots> = balance_loop path (i + 1 + length w + 1) rest stack errs"
    using t by simp
  finally show ?case by (simp add: add.assoc)
next
  case (bal_seq v w)
  have "balance_loop path i ((v @ w) @ rest) stack errs
      = balance_loop path i (v @ (w @ rest)) stack errs"
    by simp
  also have "\<dots> = balance_loop path (i + length v) (w @ rest) stack errs"
    by (rule bal_seq.IH(1))
  also have "\<dots> = balance_loop path (i + length v + length w) rest stack errs"
    by (rule bal_seq.IH(2))
  finally show ?case by (simp add: add.assoc)
qed


lemma str_nat_0: "str_nat 0 = ''0''"
  by code_simp

lemma finditer_closer_first: "finditer TYPE_RE '')('' = []"
  by code_simp

lemma splitlines_closer_first: "splitlines '')('' = ['')('']"
  by code_simp

lemma search_closer_first: "rx_search TOP_PRIVATE_RE '')('' = None"
  by code_simp

section \<open>The balance pass: texts without a diagnostic are balanced\<close>

lemma balanced_insert:
  assumes "balanced w" and "balanced m"
  shows "w = a @ b \<Longrightarrow> balanced (a @ m @ b)"
  using assms(1)
proof (induction w arbitrary: a b rule: balanced.induct)
  case bal_empty
  with assms(2) show ?case by simp
next
  case (bal_other c)
  from bal_other.hyps have c: "balanced [c]"
    by (rule balanced.bal_other)
  from bal_other.prems have "(a = [] \<and> b = [c]) \<or> (a = [c] \<and> b = [])"
    by (cases a) auto
  then show ?case
  proof
    assume "a = [] \<and> b = [c]"
    with bal_seq [OF assms(2) c] show ?thesis by simp
  next
    assume "a = [c] \<and> b = []"
    with bal_seq [OF c assms(2)] show ?thesis by simp
  qed
next
  case (bal_wrap w cl opn)
  have whole: "balanced ([opn] @ w @ [cl])"
    using bal_wrap.hyps by (rule balanced.bal_wrap)
  show ?case
  proof (cases "a = [] \<or> b = []")
    case True
    then show ?thesis
    proof
      assume "a = []"
      with bal_wrap.prems bal_seq [OF assms(2) whole] show ?thesis by simp
    next
      assume "b = []"
      with bal_wrap.prems bal_seq [OF whole assms(2)] show ?thesis by simp
    qed
  next
    case False
    then obtain a' where a: "a = opn # a'"
      using bal_wrap.prems by (cases a) auto
    from False obtain b' where b: "b = b' @ [cl]"
      using bal_wrap.prems by (cases b rule: rev_cases) auto
    from bal_wrap.prems a b have "w = a' @ b'"
      by simp
    then have "balanced (a' @ m @ b')"
      by (rule bal_wrap.IH)
    then have "balanced ([opn] @ (a' @ m @ b') @ [cl])"
      using bal_wrap.hyps(2) by (rule balanced.bal_wrap)
    then show ?thesis
      by (simp add: a b)
  qed
next
  case (bal_seq v w)
  from bal_seq.prems obtain u where
    "(v = a @ u \<and> u @ w = b) \<or> (v @ u = a \<and> w = u @ b)"
    by (auto simp: append_eq_append_conv2)
  then show ?case
  proof
    assume u: "v = a @ u \<and> u @ w = b"
    then have "balanced (a @ m @ u)"
      by (intro bal_seq.IH(1)) simp
    then have "balanced ((a @ m @ u) @ w)"
      using bal_seq.hyps(2) by (rule balanced.bal_seq)
    with u show ?thesis by auto
  next
    assume u: "v @ u = a \<and> w = u @ b"
    then have "balanced (u @ m @ b)"
      by (intro bal_seq.IH(2)) simp
    with bal_seq.hyps(1) have "balanced (v @ (u @ m @ b))"
      by (rule balanced.bal_seq)
    with u show ?thesis by auto
  qed
qed

lemma balance_loop_balanced:
  "balance_loop path i x stack errs = ([], errs) \<Longrightarrow> set stack \<subseteq> OPEN \<Longrightarrow> balanced (stack @ x)"
proof (induction x arbitrary: i stack)
  case Nil
  then show ?case by (simp add: bal_empty)
next
  case (Cons c x)
  show ?case
  proof (cases "c \<in> OPEN")
    case True
    with Cons.prems have "balanced ((stack @ [c]) @ x)"
      by (intro Cons.IH [of "i + 1"]) simp_all
    then show ?thesis by simp
  next
    case no_open: False
    show ?thesis
    proof (cases "c \<in> CLOSE")
      case True
      with no_open Cons.prems(1) have ok: "stack \<noteq> []" "Some (last stack) = PAIR c"
        and rest: "balance_loop path (i + 1) x (butlast stack) errs = ([], errs)"
        by (auto split: if_splits)
      have "set (butlast stack) \<subseteq> OPEN"
        using Cons.prems(2) by (meson in_set_butlastD subset_iff)
      with rest have b: "balanced (butlast stack @ x)"
        by (rule Cons.IH)
      from ok(2) have "(c, last stack) \<in> set PAIR_items"
        by (simp add: PAIR_def map_of_SomeD)
      with bal_empty have m: "balanced ([last stack] @ [] @ [c])"
        by (rule bal_wrap)
      have "balanced (butlast stack @ ([last stack] @ [] @ [c]) @ x)"
        by (rule balanced_insert [OF b m]) simp
      then have "balanced ((butlast stack @ [last stack]) @ c # x)"
        by simp
      moreover have "butlast stack @ [last stack] = stack"
        using ok(1) by (rule append_butlast_last_id)
      ultimately show ?thesis
        by simp
    next
      case False
      with no_open Cons.prems have b: "balanced (stack @ x)"
        by (intro Cons.IH [of "i + 1"]) simp_all
      from no_open False have m: "balanced [c]"
        by (rule bal_other)
      have "balanced (stack @ [c] @ x)"
        by (rule balanced_insert [OF b m]) simp
      then show ?thesis by simp
    qed
  qed
qed

lemma no_diagnostic_balanced:
  assumes "balance_check path t errs = errs"
  shows "balanced t"
proof -
  obtain stack errs' where l: "balance_loop path 0 t [] errs = (stack, errs')"
    by (cases "balance_loop path 0 t [] errs")
  from balance_loop_errors [OF l] have e: "length errs \<le> length errs'"
    by auto
  from assms l e have "stack = []" "errs' = errs"
    by (auto simp: balance_check_def split: if_splits)
  with l have "balanced ([] @ t)"
    by (intro balance_loop_balanced [of path 0 t "[]" errs]) simp_all
  then show ?thesis by simp
qed

section \<open>Claims about the balance pass\<close>

text \<open>
  C1. For every text whose delimiters \<^verbatim>\<open>()\<close>, \<^verbatim>\<open>{}\<close>, \<^verbatim>\<open>[]\<close> are balanced and correctly
  nested, the balance pass adds no diagnostic: the loop runs to the end of the text without
  a mismatch, and the stack is empty there.
\<close>

theorem balanced_no_diagnostic:
  assumes "balanced text"
  shows "balance_loop path 0 text [] errs = ([], errs)
       \<and> balance_check path text errs = errs"
proof -
  have "balance_loop path 0 (text @ []) [] errs = balance_loop path (0 + length text) [] [] errs"
    using assms by (rule balanced_loop_skip)
  then have "balance_loop path 0 text [] errs = ([], errs)"
    by simp
  then show ?thesis
    by (simp add: balance_check_def)
qed

theorem balanced_no_diagnostic_witness:
  "balanced ''([x])'' \<and> balance_check ''a.swift'' ''([x])'' [] = []"
proof -
  have "balanced (''('' @ (''['' @ ''x'' @ '']'') @ '')'')"
    by (intro bal_wrap bal_other) (simp_all add: OPEN_eq CLOSE_eq PAIR_items_def)
  then have b: "balanced ''([x])''"
    by simp
  from balanced_no_diagnostic [OF b, of "''a.swift''" "[]"] b show ?thesis
    by simp
qed

text \<open>
  C2. For the text \<^verbatim>\<open>)(\<close> the balance pass adds exactly one diagnostic, the mismatch at
  offset 0: the stack is empty at the \<^verbatim>\<open>break\<close>, so no \<^verbatim>\<open>open=\<close> diagnostic follows,
  and the message after the path does not contain \<^verbatim>\<open>open=\<close>. The other two passes add
  nothing for this text.
\<close>

theorem closer_first_one_diagnostic:
  "balance_check path '')('' errs
     = errs @ [path @ '': Unbalanced or mismatched bracket around offset 0'']
   \<and> str_in ''mismatched bracket around offset 0''
        (path @ '': Unbalanced or mismatched bracket around offset 0'')
   \<and> \<not> str_in ''open='' '': Unbalanced or mismatched bracket around offset 0''
   \<and> duplicate_check path '')('' errs' = errs'
   \<and> private_check path '')('' errs' = errs'"
proof -
  have 1: "balance_check path '')('' errs
     = errs @ [path @ '': Unbalanced or mismatched bracket around offset 0'']"
    by (simp add: balance_check_def OPEN_eq CLOSE_eq mismatch_msg_def str_nat_0)
  have 2: "str_in ''mismatched bracket around offset 0''
        (path @ '': Unbalanced or mismatched bracket around offset 0'')"
    by (rule str_in_append_left) code_simp
  have 3: "\<not> str_in ''open='' '': Unbalanced or mismatched bracket around offset 0''"
    by code_simp
  have 4: "duplicate_check path '')('' errs' = errs'"
    by (simp add: duplicate_check_def finditer_closer_first)
  have 5: "private_check path '')('' errs' = errs'"
    by (simp add: private_check_def splitlines_closer_first search_closer_first)
  from 1 2 3 4 5 show ?thesis by blast
qed



section \<open>The duplicate-name pass\<close>

lemma report_duplicates_eq:
  "report_duplicates path items errs
     = errs @ map (duplicate_msg path) (map fst (filter (\<lambda>(n, occ). length occ > 1) items))"
  by (induction items arbitrary: errs) auto

lemma keys_setdefault_append:
  "map fst (setdefault_append d k v) = (if k \<in> set (map fst d) then map fst d else map fst d @ [k])"
  by (auto simp: setdefault_append_def split: prod.splits)

lemma map_of_setdefault_update:
  "map_of (map (\<lambda>(k', occ). if k' = k then (k', occ @ [v]) else (k', occ)) d) n
     = map_option (\<lambda>occ. if n = k then occ @ [v] else occ) (map_of d n)"
  by (induction d) auto

lemma occ_count_setdefault_append:
  "occ_count (setdefault_append d k v) n = occ_count d n + (if n = k then 1 else 0)"
proof (cases "k \<in> fst ` set d")
  case True
  then obtain occ where "map_of d k = Some occ"
    by (metis map_of_eq_None_iff not_Some_eq)
  then show ?thesis using True
    by (auto simp: occ_count_def setdefault_append_def map_of_setdefault_update split: option.splits)
next
  case False
  then have "map_of d k = None"
    by (simp add: map_of_eq_None_iff)
  then show ?thesis using False
    by (auto simp: occ_count_def setdefault_append_def map_add_def split: option.splits)
qed

lemma collect_names_invariant:
  "distinct (map fst d) \<Longrightarrow>
   distinct (map fst (collect_names ms d))
   \<and> (\<forall>n. occ_count (collect_names ms d) n
            = occ_count d n + count_list (map (\<lambda>(start, gs). group gs 2) ms) n)"
proof (induction ms arbitrary: d)
  case Nil
  then show ?case by simp
next
  case (Cons m ms)
  obtain start gs where m: "m = (start, gs)" by (cases m)
  let ?d = "setdefault_append d (group gs 2) (group gs 1, start)"
  have "distinct (map fst ?d)"
    using Cons.prems by (simp add: keys_setdefault_append)
  from Cons.IH [OF this] show ?case
    by (auto simp: m occ_count_setdefault_append)
qed

lemma count_list_distinct: "distinct xs \<Longrightarrow> count_list xs x = (if x \<in> set xs then 1 else 0)"
  by (induction xs) auto

lemma count_list_map_inj: "inj f \<Longrightarrow> count_list (map f xs) (f x) = count_list xs x"
  by (induction xs) (auto dest: injD)

lemma inj_duplicate_msg: "inj (duplicate_msg path)"
  by (auto simp: inj_def duplicate_msg_def)

lemma distinct_keys_filter:
  "distinct (map fst d) \<Longrightarrow> distinct (map fst (filter P d))"
  by (simp add: distinct_map_filter)

lemma duplicated_keys:
  assumes "distinct (map fst d)"
  shows "set (map fst (filter (\<lambda>(n, occ). length occ > 1) d)) = {n. 2 \<le> occ_count d n}"
proof (rule set_eqI)
  fix n
  have m: "(n, occ) \<in> set d \<longleftrightarrow> map_of d n = Some occ" for occ
    using assms by simp
  have "n \<in> set (map fst (filter (\<lambda>(n, occ). length occ > 1) d))
        \<longleftrightarrow> (\<exists>occ. (n, occ) \<in> set d \<and> 1 < length occ)"
    by force
  also have "\<dots> \<longleftrightarrow> (\<exists>occ. map_of d n = Some occ \<and> 1 < length occ)"
    by (simp only: m)
  also have "\<dots> \<longleftrightarrow> 2 \<le> occ_count d n"
    by (cases "map_of d n") (auto simp: occ_count_def)
  finally show "n \<in> set (map fst (filter (\<lambda>(n, occ). length occ > 1) d))
        \<longleftrightarrow> n \<in> {n. 2 \<le> occ_count d n}"
    by simp
qed

text \<open>
  C4. The duplicate-name pass only appends to \<^verbatim>\<open>errors\<close>; for every name, it adds the
  diagnostic \<^verbatim>\<open>Duplicate type name detected: <name>\<close> exactly once when the declaration
  pattern matches the name two or more times, and not at all when it matches the name at
  most once; it adds nothing else, so the diagnostics it adds are as many as the names
  matched twice or more.
\<close>

theorem duplicate_once_per_name:
  "duplicate_check path text errs = errs @ duplicate_check path text []
   \<and> count_list (duplicate_check path text []) (path @ '': Duplicate type name detected: '' @ name)
       = (if 2 \<le> count_list (matched_names text) name then 1 else 0)
   \<and> length (duplicate_check path text []) = card {n. 2 \<le> count_list (matched_names text) n}"
proof -
  let ?d = "collect_names (finditer TYPE_RE text) []"
  let ?ks = "map fst (filter (\<lambda>(n, occ). length occ > 1) ?d)"
  have inv: "distinct (map fst ?d)" "\<And>n. occ_count ?d n = count_list (matched_names text) n"
    using collect_names_invariant [of "[]" "finditer TYPE_RE text"]
    by (simp_all add: occ_count_def matched_names_def)
  have ds: "duplicate_check path text errs = errs @ map (duplicate_msg path) ?ks" for errs
    by (simp add: duplicate_check_def report_duplicates_eq)
  have dks: "distinct ?ks"
    using inv(1) by (rule distinct_keys_filter)
  have ks: "set ?ks = {n. 2 \<le> count_list (matched_names text) n}"
    using duplicated_keys [OF inv(1)] by (simp add: inv(2))
  have 1: "duplicate_check path text errs = errs @ duplicate_check path text []"
    by (simp add: ds)
  have "count_list (map (duplicate_msg path) ?ks) (duplicate_msg path name) = count_list ?ks name"
    by (rule count_list_map_inj [OF inj_duplicate_msg])
  also have "\<dots> = (if 2 \<le> count_list (matched_names text) name then 1 else 0)"
    by (simp only: count_list_distinct [OF dks] ks mem_Collect_eq)
  finally have 2: "count_list (duplicate_check path text []) (path @ '': Duplicate type name detected: '' @ name)
       = (if 2 \<le> count_list (matched_names text) name then 1 else 0)"
    by (simp add: ds duplicate_msg_def)
  have "length (duplicate_check path text []) = length ?ks"
    by (simp add: ds)
  also have "\<dots> = card (set ?ks)"
    using dks by (rule distinct_card [symmetric])
  finally have 3: "length (duplicate_check path text []) = card {n. 2 \<le> count_list (matched_names text) n}"
    by (simp only: ks)
  from 1 2 3 show ?thesis by blast
qed


lemma foo_bar_names: "matched_names ''struct Foo {} class Foo {} enum Foo; struct Bar'' = [''Foo'', ''Foo'', ''Foo'', ''Bar'']"
  by code_simp

theorem duplicate_once_per_name_witness:
  "count_list (duplicate_check ''a.swift'' ''struct Foo {} class Foo {} enum Foo; struct Bar'' [])
      ''a.swift: Duplicate type name detected: Foo'' = 1
   \<and> count_list (duplicate_check ''a.swift'' ''struct Foo {} class Foo {} enum Foo; struct Bar'' [])
      ''a.swift: Duplicate type name detected: Bar'' = 0
   \<and> length (duplicate_check ''a.swift'' ''struct Foo {} class Foo {} enum Foo; struct Bar'' []) = 1"
proof -
  let ?t = "''struct Foo {} class Foo {} enum Foo; struct Bar''"
  have c: "{n. 2 \<le> count_list [''Foo'', ''Foo'', ''Foo'', ''Bar''] n} = {''Foo''}"
    by auto
  show ?thesis
    using duplicate_once_per_name [of "''a.swift''" ?t "[]" "''Foo''"]
          duplicate_once_per_name [of "''a.swift''" ?t "[]" "''Bar''"]
    by (simp add: foo_bar_names c)
qed

section \<open>The private-declaration pass: what the pattern accepts\<close>

lemma startswith_iff: "startswith s p \<longleftrightarrow> (\<exists>r. s = p @ r)"
  by (induction s p rule: startswith.induct) auto

lemma takeWhile_length_iff:
  "k \<le> length (takeWhile P xs) \<longleftrightarrow> k \<le> length xs \<and> (\<forall>x \<in> set (take k xs). P x)"
proof (induction xs arbitrary: k)
  case Nil
  show ?case by simp
next
  case (Cons x xs)
  show ?case
  proof (cases k)
    case 0
    then show ?thesis by simp
  next
    case (Suc j)
    then show ?thesis using Cons.IH [of j] by auto
  qed
qed

lemma concat_map_nonempty: "concat (map f xs) \<noteq> [] \<longleftrightarrow> (\<exists>x \<in> set xs. f x \<noteq> [])"
  by (induction xs) auto

lemma accepts_Seq_Nil: "rx_match (Seq []) t p gs \<noteq> []"
  by simp

lemma accepts_Seq_Bol:
  "rx_match (Seq (Bol # rs)) t p gs \<noteq> [] \<longleftrightarrow> p = 0 \<and> rx_match (Seq rs) t p gs \<noteq> []"
  by auto

lemma accepts_Seq_WordB:
  "rx_match (Seq (WordB # rs)) t p gs \<noteq> []
     \<longleftrightarrow> word_before t p \<noteq> word_at t p \<and> rx_match (Seq rs) t p gs \<noteq> []"
  by simp

lemma accepts_Seq_Lit:
  "rx_match (Seq (Lit s # rs)) t p gs \<noteq> []
     \<longleftrightarrow> startswith (drop p t) s \<and> rx_match (Seq rs) t (p + length s) gs \<noteq> []"
  by simp

lemma accepts_Seq_Star:
  "rx_match (Seq (Star P # rs)) t p gs \<noteq> []
     \<longleftrightarrow> (\<exists>k. k \<le> length (takeWhile P (drop p t)) \<and> rx_match (Seq rs) t (p + k) gs \<noteq> [])"
proof -
  have "rx_match (Seq (Star P # rs)) t p gs \<noteq> []
     \<longleftrightarrow> (\<exists>k \<in> {0 ..< Suc (length (takeWhile P (drop p t)))}. rx_match (Seq rs) t (p + k) gs \<noteq> [])"
    by (simp add: concat_map_nonempty del: upt_Suc)
  also have "\<dots> \<longleftrightarrow> (\<exists>k. k \<le> length (takeWhile P (drop p t)) \<and> rx_match (Seq rs) t (p + k) gs \<noteq> [])"
    by (auto simp: less_Suc_eq_le)
  finally show ?thesis .
qed

lemma accepts_Seq_Plus:
  "rx_match (Seq (Plus P # rs)) t p gs \<noteq> []
     \<longleftrightarrow> (\<exists>k. 1 \<le> k \<and> k \<le> length (takeWhile P (drop p t)) \<and> rx_match (Seq rs) t (p + k) gs \<noteq> [])"
proof -
  have "rx_match (Seq (Plus P # rs)) t p gs \<noteq> []
     \<longleftrightarrow> (\<exists>k \<in> {1 ..< Suc (length (takeWhile P (drop p t)))}. rx_match (Seq rs) t (p + k) gs \<noteq> [])"
    by (simp add: concat_map_nonempty del: upt_Suc)
  also have "\<dots> \<longleftrightarrow> (\<exists>k. 1 \<le> k \<and> k \<le> length (takeWhile P (drop p t)) \<and> rx_match (Seq rs) t (p + k) gs \<noteq> [])"
    by (auto simp: less_Suc_eq_le)
  finally show ?thesis .
qed

lemma match_Alt_Lit:
  "rx_match (Alt (map Lit kws)) t p gs
     = map (\<lambda>kw. (p + length kw, gs)) (filter (\<lambda>kw. startswith (drop p t) kw) kws)"
  by (induction kws) auto

lemma accepts_Seq_Group_Alt_Lit:
  "rx_match (Seq (Group (Alt (map Lit kws)) # rs)) t p gs \<noteq> []
     \<longleftrightarrow> (\<exists>kw \<in> set kws. startswith (drop p t) kw
            \<and> rx_match (Seq rs) t (p + length kw) (gs @ [take (length kw) (drop p t)]) \<noteq> [])"
  by (simp add: concat_map_nonempty match_Alt_Lit del: rx_match.simps(7)) auto


lemma word_at_append: "word_at (a @ b) (length a) \<longleftrightarrow> b \<noteq> [] \<and> is_word (hd b)"
  by (cases b) (auto simp: word_at_def nth_append)

lemma word_before_append: "a \<noteq> [] \<Longrightarrow> word_before (a @ b) (length a) \<longleftrightarrow> is_word (last a)"
  by (cases a rule: rev_cases) (auto simp: word_before_def word_at_def nth_append)

lemma decl_keyword_word:
  assumes "kw \<in> set decl_keywords"
  shows "kw \<noteq> [] \<and> is_word (last kw)"
proof -
  have "list_all (\<lambda>kw. kw \<noteq> [] \<and> is_word (last kw)) decl_keywords"
    by code_simp
  with assms show ?thesis
    by (simp add: list_all_iff)
qed


lemma TOP_PRIVATE_RE_keywords:
  "TOP_PRIVATE_RE = Seq [Bol, Star is_space, Lit ''private'', Plus is_space,
                         Group (Alt (map Lit decl_keywords)), WordB]"
  by (simp add: TOP_PRIVATE_RE_def decl_keywords_def)

lemma top_private_positions:
  "rx_match TOP_PRIVATE_RE line p [] \<noteq> [] \<longleftrightarrow>
     p = 0 \<and>
     (\<exists>k1. k1 \<le> length (takeWhile is_space (drop p line))
        \<and> startswith (drop (p + k1) line) ''private''
        \<and> (\<exists>k2. 1 \<le> k2
             \<and> k2 \<le> length (takeWhile is_space (drop (p + k1 + length ''private'') line))
             \<and> (\<exists>kw \<in> set decl_keywords.
                    startswith (drop (p + k1 + length ''private'' + k2) line) kw
                    \<and> word_before line (p + k1 + length ''private'' + k2 + length kw)
                          \<noteq> word_at line (p + k1 + length ''private'' + k2 + length kw))))"
  unfolding TOP_PRIVATE_RE_keywords
  by (simp only: accepts_Seq_Bol accepts_Seq_Star accepts_Seq_Lit accepts_Seq_Plus
        accepts_Seq_Group_Alt_Lit accepts_Seq_WordB accepts_Seq_Nil simp_thms)



lemma rx_search_iff:
  "rx_search r t \<noteq> None \<longleftrightarrow> (\<exists>pos \<le> length t. rx_match r t pos [] \<noteq> [])"
proof -
  have "rx_search r t \<noteq> None
      \<longleftrightarrow> find (\<lambda>pos. rx_match r t pos [] \<noteq> []) [0 ..< Suc (length t)] \<noteq> None"
    by (simp add: rx_search_def split: option.splits)
  also have "\<dots> \<longleftrightarrow> (\<exists>pos \<in> set [0 ..< Suc (length t)]. rx_match r t pos [] \<noteq> [])"
    by (simp only: find_None_iff) blast
  also have "\<dots> \<longleftrightarrow> (\<exists>pos \<le> length t. rx_match r t pos [] \<noteq> [])"
    by (auto simp: less_Suc_eq_le simp del: upt_Suc)
  finally show ?thesis .
qed

lemma drop_length_append: "n = length a \<Longrightarrow> drop n (a @ b) = b"
  by simp

lemma top_private_line_matches:
  assumes "top_private_line line"
  shows "rx_match TOP_PRIVATE_RE line 0 [] \<noteq> []"
proof -
  from assms obtain ws sep kw rest where
    line: "line = ws @ ''private'' @ sep @ kw @ rest"
    and ws: "list_all is_space ws"
    and sep: "sep \<noteq> []" "list_all is_space sep"
    and kw: "kw \<in> set decl_keywords"
    and rest: "rest = [] \<or> \<not> is_word (hd rest)"
    unfolding top_private_line_def by blast
  let ?k1 = "length ws" and ?k2 = "length sep"
  have 1: "?k1 \<le> length (takeWhile is_space (drop 0 line))"
    using ws by (simp add: takeWhile_length_iff line list_all_iff)
  have 2: "startswith (drop (0 + ?k1) line) ''private''"
    by (simp add: line startswith_iff)
  have 3: "1 \<le> ?k2"
    using sep(1) by (cases sep) simp_all
  have 4: "?k2 \<le> length (takeWhile is_space (drop (0 + ?k1 + length ''private'') line))"
    using sep(2) by (simp add: takeWhile_length_iff line list_all_iff)
  have "drop (0 + ?k1 + length ''private'' + ?k2) ((ws @ ''private'' @ sep) @ kw @ rest) = kw @ rest"
    by (rule drop_length_append) simp
  then have 5: "startswith (drop (0 + ?k1 + length ''private'' + ?k2) line) kw"
    by (simp add: line startswith_iff)
  have split: "line = (ws @ ''private'' @ sep @ kw) @ rest"
    by (simp add: line)
  have len: "0 + ?k1 + length ''private'' + ?k2 + length kw = length (ws @ ''private'' @ sep @ kw)"
    by simp
  have wb: "word_before line (0 + ?k1 + length ''private'' + ?k2 + length kw)"
    unfolding len by (subst split, subst word_before_append) (use decl_keyword_word [OF kw] in auto)
  have wa: "\<not> word_at line (0 + ?k1 + length ''private'' + ?k2 + length kw)"
    unfolding len by (subst split, subst word_at_append) (use rest in auto)
  from 1 2 3 4 5 wb wa kw show ?thesis
    unfolding top_private_positions by blast
qed

lemma matches_top_private_line:
  assumes "rx_match TOP_PRIVATE_RE line p [] \<noteq> []"
  shows "top_private_line line"
proof -
  from assms obtain k1 k2 kw where
    p: "p = 0"
    and k1: "k1 \<le> length (takeWhile is_space (drop p line))"
    and priv: "startswith (drop (p + k1) line) ''private''"
    and k2: "1 \<le> k2" "k2 \<le> length (takeWhile is_space (drop (p + k1 + length ''private'') line))"
    and kw: "kw \<in> set decl_keywords"
    and kwm: "startswith (drop (p + k1 + length ''private'' + k2) line) kw"
    and bnd: "word_before line (p + k1 + length ''private'' + k2 + length kw)
              \<noteq> word_at line (p + k1 + length ''private'' + k2 + length kw)"
    unfolding top_private_positions by blast
  define ws where "ws = take k1 line"
  from k1 p have k1': "k1 \<le> length line" "list_all is_space ws"
    by (simp_all add: takeWhile_length_iff ws_def list_all_iff)
  from priv p obtain r1 where r1: "drop k1 line = ''private'' @ r1"
    by (auto simp: startswith_iff)
  have l1: "line = ws @ ''private'' @ r1"
    unfolding ws_def using r1 by (metis append_take_drop_id)
  have lws: "length ws = k1"
    using k1'(1) by (simp add: ws_def)
  have "drop (p + k1 + length ''private'') ((ws @ ''private'') @ r1) = r1"
    by (rule drop_length_append) (simp add: p lws)
  then have d1: "drop (p + k1 + length ''private'') line = r1"
    by (simp add: l1)
  define sep where "sep = take k2 r1"
  from k2(2) [unfolded d1] have k2': "k2 \<le> length r1" "list_all is_space sep"
    by (simp_all add: takeWhile_length_iff sep_def list_all_iff)
  have lsep: "length sep = k2"
    using k2'(1) by (simp add: sep_def)
  have d2: "drop (p + k1 + length ''private'' + k2) line = drop k2 r1"
    by (metis d1 drop_drop add.commute)
  from kwm [unfolded d2] obtain rest where rest: "drop k2 r1 = kw @ rest"
    by (auto simp: startswith_iff)
  have l2: "r1 = sep @ kw @ rest"
    unfolding sep_def using rest by (metis append_take_drop_id)
  have line: "line = ws @ ''private'' @ sep @ kw @ rest"
    by (simp add: l1 l2)
  have split: "line = (ws @ ''private'' @ sep @ kw) @ rest"
    by (simp add: line)
  have len: "p + k1 + length ''private'' + k2 + length kw = length (ws @ ''private'' @ sep @ kw)"
    by (simp add: p lws lsep)
  have wb: "word_before line (p + k1 + length ''private'' + k2 + length kw)"
    unfolding len by (subst split, subst word_before_append) (use decl_keyword_word [OF kw] in auto)
  with bnd have "\<not> word_at line (p + k1 + length ''private'' + k2 + length kw)"
    by simp
  then have "\<not> word_at ((ws @ ''private'' @ sep @ kw) @ rest) (length (ws @ ''private'' @ sep @ kw))"
    unfolding len using split by simp
  then have r: "rest = [] \<or> \<not> is_word (hd rest)"
    by (simp only: word_at_append) blast
  have "sep \<noteq> []"
    using k2(1) lsep by auto
  with line k1'(2) k2'(2) kw r show ?thesis
    unfolding top_private_line_def by blast
qed

lemma top_private_search_iff: "rx_search TOP_PRIVATE_RE line \<noteq> None \<longleftrightarrow> top_private_line line"
proof
  assume "rx_search TOP_PRIVATE_RE line \<noteq> None"
  then obtain pos where "rx_match TOP_PRIVATE_RE line pos [] \<noteq> []"
    unfolding rx_search_iff by blast
  then show "top_private_line line"
    by (rule matches_top_private_line)
next
  assume "top_private_line line"
  then have "rx_match TOP_PRIVATE_RE line 0 [] \<noteq> []"
    by (rule top_private_line_matches)
  then show "rx_search TOP_PRIVATE_RE line \<noteq> None"
    unfolding rx_search_iff by blast
qed

lemma count_top_privates_eq:
  "count_top_privates lines n = n + length (filter top_private_line lines)"
  by (induction lines arbitrary: n) (simp_all add: top_private_search_iff del: not_None_eq)

text \<open>
  C5. The private-declaration pass counts, line by line, the lines that after leading
  whitespace begin with \<^verbatim>\<open>private\<close>, whitespace and one of the keywords \<^verbatim>\<open>struct\<close>,
  \<^verbatim>\<open>class\<close>, \<^verbatim>\<open>enum\<close>, \<^verbatim>\<open>func\<close>, \<^verbatim>\<open>var\<close>, \<^verbatim>\<open>let\<close>; it adds the one diagnostic
  \<^verbatim>\<open>Many top-level private declarations (>=3). ...\<close> if and only if the count is at least 3,
  and adds nothing otherwise (so nothing for exactly 2 such lines).
\<close>

theorem private_threshold:
  "private_check path text errs
     = (if 3 \<le> length (filter top_private_line (splitlines text))
        then errs @ [path @ '': Many top-level private declarations (>=3). Possible premature closing brace in a View.'']
        else errs)"
  by (simp add: private_check_def count_top_privates_eq private_msg_def)


theorem private_threshold_witness:
  "length (filter top_private_line (splitlines
      (''private var a'' @ [CHR 0x0A] @ ''  private func b() {}'' @ [CHR 0x0A] @ ''struct S {''
       @ [CHR 0x0A] @ ''private let c = 1'' @ [CHR 0x0A] @ ''}''))) = 3
   \<and> private_check ''a.swift''
      (''private var a'' @ [CHR 0x0A] @ ''  private func b() {}'' @ [CHR 0x0A] @ ''struct S {''
       @ [CHR 0x0A] @ ''private let c = 1'' @ [CHR 0x0A] @ ''}'') []
     = [''a.swift: Many top-level private declarations (>=3). Possible premature closing brace in a View.'']
   \<and> length (filter top_private_line (splitlines
      (''private var a'' @ [CHR 0x0A] @ ''  private func b() {}'' @ [CHR 0x0A] @ ''privately let c''))) = 2
   \<and> private_check ''a.swift''
      (''private var a'' @ [CHR 0x0A] @ ''  private func b() {}'' @ [CHR 0x0A] @ ''privately let c'') []
     = []"
proof -
  let ?t3 = "''private var a'' @ [CHR 0x0A] @ ''  private func b() {}'' @ [CHR 0x0A] @ ''struct S {''
       @ [CHR 0x0A] @ ''private let c = 1'' @ [CHR 0x0A] @ ''}''"
  let ?t2 = "''private var a'' @ [CHR 0x0A] @ ''  private func b() {}'' @ [CHR 0x0A] @ ''privately let c''"
  have "length (filter (\<lambda>l. rx_search TOP_PRIVATE_RE l \<noteq> None) (splitlines ?t3)) = 3"
    by code_simp
  then have c3: "length (filter top_private_line (splitlines ?t3)) = 3"
    by (simp only: top_private_search_iff)
  have "length (filter (\<lambda>l. rx_search TOP_PRIVATE_RE l \<noteq> None) (splitlines ?t2)) = 2"
    by code_simp
  then have c2: "length (filter top_private_line (splitlines ?t2)) = 2"
    by (simp only: top_private_search_iff)
  from private_threshold [of "''a.swift''" ?t3 "[]"] private_threshold [of "''a.swift''" ?t2 "[]"]
  show ?thesis
    by (simp only: c3 c2) simp
qed

section \<open>The disable marker\<close>

lemma lower_char_variant:
  assumes "letter_case_variant c d" and "lower_char d = d"
  shows "lower_char c = d"
proof (cases "c = d")
  case True
  with assms(2) show ?thesis by simp
next
  case False
  with assms(1) have "in_range d 0x61 0x7A" "ord c + 32 = ord d"
    by (auto simp: letter_case_variant_def)
  then have "in_range c 0x41 0x5A" "chr (ord c + 32) = d"
    by (auto simp: in_range_def chr_def ord_def)
  then show ?thesis
    by (simp add: lower_char_def)
qed

lemma lower_spells:
  "spells m marker \<Longrightarrow> \<forall>d \<in> set marker. lower_char d = d \<Longrightarrow> lower m = marker"
  unfolding spells_def lower_def
  by (induction m marker rule: list_all2_induct) (auto intro: lower_char_variant)

lemma marker_is_lower: "\<forall>d \<in> set ''swiftlint:disable all''. lower_char d = d"
proof -
  have "list_all (\<lambda>d. lower_char d = d) ''swiftlint:disable all''"
    by code_simp
  then show ?thesis
    by (simp only: list_all_iff)
qed

lemma marker_found:
  assumes "spells m ''swiftlint:disable all''"
  shows "str_in ''swiftlint:disable all'' (lower (pre @ m @ post))"
proof -
  have "lower m = ''swiftlint:disable all''"
    using assms marker_is_lower by (rule lower_spells)
  then have "lower (pre @ m @ post) = lower pre @ ''swiftlint:disable all'' @ lower post"
    by (simp add: lower_def)
  then show ?thesis
    by (simp only: str_in_append_left str_in_self_append)
qed

text \<open>
  C6. A file whose text contains the marker \<^verbatim>\<open>swiftlint:disable all\<close> in any letter casing
  gets no diagnostic of any kind: \<^verbatim>\<open>check_file\<close> leaves \<^verbatim>\<open>errors\<close> as it was, whatever
  else the text contains.
\<close>

theorem disable_marker_no_diagnostics:
  assumes "read_text env path = pre @ m @ post"
      and "spells m ''swiftlint:disable all''"
  shows "errors (check_file env path st) = errors st"
  using marker_found [OF assms(2), of pre post] assms(1)
  by (simp add: check_file_def Let_def)


theorem disable_marker_no_diagnostics_witness:
  "read_text (single_text generated_text) ''g.swift''
     = ''// '' @ ''SwiftLint:DISABLE All'' @ (CHR 0x0A # broken_text)
   \<and> spells ''SwiftLint:DISABLE All'' ''swiftlint:disable all''
   \<and> errors (check_file (single_text generated_text) ''g.swift'' \<lparr>errors = [], trace = []\<rparr>) = []
   \<and> errors (check_file (single_text broken_text) ''g.swift'' \<lparr>errors = [], trace = []\<rparr>)
       = [''g.swift: Unbalanced brackets, open={('', ''g.swift: Duplicate type name detected: A'']"
proof -
  have h1: "read_text (single_text generated_text) ''g.swift''
     = ''// '' @ ''SwiftLint:DISABLE All'' @ (CHR 0x0A # broken_text)"
    by (simp add: single_text_def generated_text_def)
  have h2: "spells ''SwiftLint:DISABLE All'' ''swiftlint:disable all''"
    by code_simp
  have b: "errors (check_file (single_text broken_text) ''g.swift'' \<lparr>errors = [], trace = []\<rparr>)
       = [''g.swift: Unbalanced brackets, open={('', ''g.swift: Duplicate type name detected: A'']"
    by code_simp
  from disable_marker_no_diagnostics [OF h1 h2, of "\<lparr>errors = [], trace = []\<rparr>"] h1 h2 b
  show ?thesis
    by simp
qed

section \<open>The run of the program\<close>



























section \<open>Claims about the run of the program\<close>








text \<open>
  C10. A path argument that is an existing file whose name does not end in \<^verbatim>\<open>.swift\<close> is
  skipped without a word: \<^verbatim>\<open>walk\<close> leaves the state as it was (no read, no diagnostic), and a
  run on that argument alone prints the completion line only and exits with status 0.
\<close>

theorem other_file_skipped:
  assumes "is_file env (Path arg)"
      and "\<not> endswith (path_name (Path arg)) ''.swift''"
  shows "walk env (Path arg) st = st
       \<and> main env [prog, arg] = ([Print ''Structure check completed (warnings may be shown)''], 0)"
  using assms
  by (simp add: walk_def check_file_def main_def Let_def completion_line_def)


theorem other_file_skipped_witness:
  "is_file two_files (Path ''notes.txt'')
   \<and> \<not> endswith (path_name (Path ''notes.txt'')) ''.swift''
   \<and> walk two_files (Path ''notes.txt'') \<lparr>errors = [], trace = []\<rparr> = \<lparr>errors = [], trace = []\<rparr>
   \<and> main two_files [''validate_swift_structure.py'', ''notes.txt'']
       = ([Print ''Structure check completed (warnings may be shown)''], 0)"
proof -
  have h1: "is_file two_files (Path ''notes.txt'')"
    by (simp add: two_files_def)
  have h2: "\<not> endswith (path_name (Path ''notes.txt'')) ''.swift''"
    by code_simp
  from other_file_skipped [OF h1 h2] h1 h2 show ?thesis
    by blast
qed

section \<open>The declaration pattern: what a match holds\<close>

lemma str_nat_decimal: "decimal_value (str_nat n) = n \<and> list_all (\<lambda>c. in_range c 48 57) (str_nat n)"
proof (induction n rule: str_nat.induct)
  case (1 n)
  have d: "ord (chr (48 + k)) = 48 + k" if "k < 10" for k
    using that by (simp add: ord_def chr_def)
  show ?case
  proof (cases "n < 10")
    case True
    then show ?thesis
      by (subst (1 2) str_nat.simps) (simp add: decimal_value_def d in_range_def)
  next
    case False
    with 1 have ih: "decimal_value (str_nat (n div 10)) = n div 10"
      "list_all (\<lambda>c. in_range c 48 57) (str_nat (n div 10))"
      by simp_all
    have m: "n mod 10 < 10" by simp
    from False ih show ?thesis
      by (subst (1 2) str_nat.simps) (simp add: decimal_value_def d [OF m] in_range_def)
  qed
qed

lemma TYPE_RE_keywords:
  "TYPE_RE = Seq [WordB, Group (Alt (map Lit type_keywords)), Plus is_space,
                  Group (Seq [In ident_start, Star ident_char]), WordB]"
  by (simp add: TYPE_RE_def type_keywords_def)

lemma in_concat_map: "x \<in> set (concat (map f xs)) \<longleftrightarrow> (\<exists>y \<in> set xs. x \<in> set (f y))"
  by auto

lemma in_Seq_Nil: "(e, g) \<in> set (rx_match (Seq []) t p gs) \<longleftrightarrow> e = p \<and> g = gs"
  by auto

lemma in_Seq_WordB:
  "(e, g) \<in> set (rx_match (Seq (WordB # rs)) t p gs)
     \<longleftrightarrow> word_before t p \<noteq> word_at t p \<and> (e, g) \<in> set (rx_match (Seq rs) t p gs)"
  by simp

lemma in_Seq_Plus:
  "(e, g) \<in> set (rx_match (Seq (Plus P # rs)) t p gs)
     \<longleftrightarrow> (\<exists>k. 1 \<le> k \<and> k \<le> length (takeWhile P (drop p t))
              \<and> (e, g) \<in> set (rx_match (Seq rs) t (p + k) gs))"
proof -
  have "(e, g) \<in> set (rx_match (Seq (Plus P # rs)) t p gs)
     \<longleftrightarrow> (\<exists>k \<in> {1 ..< Suc (length (takeWhile P (drop p t)))}.
            (e, g) \<in> set (rx_match (Seq rs) t (p + k) gs))"
    by (simp del: upt_Suc)
  also have "\<dots> \<longleftrightarrow> (\<exists>k. 1 \<le> k \<and> k \<le> length (takeWhile P (drop p t))
              \<and> (e, g) \<in> set (rx_match (Seq rs) t (p + k) gs))"
    by (auto simp: less_Suc_eq_le)
  finally show ?thesis .
qed

lemma in_Seq_Group_Alt_Lit:
  "(e, g) \<in> set (rx_match (Seq (Group (Alt (map Lit kws)) # rs)) t p gs)
     \<longleftrightarrow> (\<exists>kw \<in> set kws. startswith (drop p t) kw
            \<and> (e, g) \<in> set (rx_match (Seq rs) t (p + length kw) (gs @ [take (length kw) (drop p t)])))"
  by (simp add: match_Alt_Lit del: rx_match.simps(7)) auto

lemma match_ident:
  "rx_match (Seq [In P, Star Q]) t p gs
     = (if p < length t \<and> P (t ! p)
        then map (\<lambda>k. (p + 1 + k, gs)) (rev [0 ..< Suc (length (takeWhile Q (drop (p + 1) t)))])
        else [])"
  by (simp del: upt_Suc add: comp_def)

lemma match_Group_ident:
  "rx_match (Group (Seq [In P, Star Q])) t p gs
     = (if p < length t \<and> P (t ! p)
        then map (\<lambda>k. (p + 1 + k, gs @ [take (1 + k) (drop p t)]))
                 (rev [0 ..< Suc (length (takeWhile Q (drop (p + 1) t)))])
        else [])"
  by (simp only: rx_match.simps(10) match_ident) (simp del: upt_Suc add: comp_def)

lemma in_Seq_Group_ident:
  "(e, g) \<in> set (rx_match (Seq (Group (Seq [In P, Star Q]) # rs)) t p gs)
     \<longleftrightarrow> p < length t \<and> P (t ! p)
         \<and> (\<exists>k. k \<le> length (takeWhile Q (drop (p + 1) t))
              \<and> (e, g) \<in> set (rx_match (Seq rs) t (p + 1 + k) (gs @ [take (1 + k) (drop p t)])))"
proof -
  have "(e, g) \<in> set (rx_match (Seq (Group (Seq [In P, Star Q]) # rs)) t p gs)
     \<longleftrightarrow> p < length t \<and> P (t ! p)
         \<and> (\<exists>k \<in> {0 ..< Suc (length (takeWhile Q (drop (p + 1) t)))}.
              (e, g) \<in> set (rx_match (Seq rs) t (p + 1 + k) (gs @ [take (1 + k) (drop p t)])))"
    by (simp only: rx_match.simps(9) match_Group_ident) (simp del: upt_Suc rx_match.simps)
  also have "\<dots> \<longleftrightarrow> p < length t \<and> P (t ! p)
         \<and> (\<exists>k. k \<le> length (takeWhile Q (drop (p + 1) t))
              \<and> (e, g) \<in> set (rx_match (Seq rs) t (p + 1 + k) (gs @ [take (1 + k) (drop p t)])))"
    by (auto simp: less_Suc_eq_le simp del: rx_match.simps)
  finally show ?thesis .
qed

lemma type_match_groups:
  assumes "(e, g) \<in> set (rx_match TYPE_RE t p [])"
  shows "\<exists>kw name. g = [kw, name] \<and> kw \<in> set type_keywords
           \<and> name \<noteq> [] \<and> ident_start (hd name) \<and> list_all ident_char name"
proof -
  from assms obtain kw k1 k2 where
    kw: "kw \<in> set type_keywords" "startswith (drop p t) kw"
    and start: "p + length kw + k1 < length t" "ident_start (t ! (p + length kw + k1))"
    and k2: "k2 \<le> length (takeWhile ident_char (drop (p + length kw + k1 + 1) t))"
    and g: "g = [] @ [take (length kw) (drop p t)] @ [take (1 + k2) (drop (p + length kw + k1) t)]"
    unfolding TYPE_RE_keywords
    by (simp only: in_Seq_WordB in_Seq_Group_Alt_Lit in_Seq_Plus in_Seq_Group_ident in_Seq_Nil
          append_assoc) blast
  let ?q = "p + length kw + k1"
  define name where "name = take (1 + k2) (drop ?q t)"
  from kw(2) have g1: "take (length kw) (drop p t) = kw"
    by (auto simp: startswith_iff)
  have d: "drop ?q t = t ! ?q # drop (?q + 1) t"
    using start(1) by (simp add: Cons_nth_drop_Suc)
  then have n: "name = t ! ?q # take k2 (drop (?q + 1) t)"
    by (simp add: name_def)
  from k2 have "\<forall>c \<in> set (take k2 (drop (?q + 1) t)). ident_char c"
    by (simp only: takeWhile_length_iff) blast
  moreover have "ident_char (t ! ?q)"
    using start(2) by (auto simp: ident_start_def ident_char_def)
  ultimately have "list_all ident_char name"
    by (simp add: n list_all_iff)
  moreover have "name \<noteq> []" "ident_start (hd name)"
    using start(2) by (simp_all add: n)
  moreover have "g = [kw, name]"
    by (simp add: g g1 name_def)
  ultimately show ?thesis
    using kw(1) by blast
qed

lemma finditer_from_in_match:
  "(start, g) \<in> set (finditer_from r t p) \<Longrightarrow> \<exists>e. (e, g) \<in> set (rx_match r t start [])"
proof (induction r t p rule: finditer_from.induct)
  case (1 r t pos)
  show ?case
  proof (cases "length t < pos")
    case True
    with "1.prems" show ?thesis
      by (subst (asm) finditer_from.simps) simp
  next
    case False
    show ?thesis
    proof (cases "rx_match r t pos []")
      case Nil
      with False "1.prems" have "(start, g) \<in> set (finditer_from r t (pos + 1))"
        by (subst (asm) finditer_from.simps) simp
      with False Nil show ?thesis
        by (intro "1.IH"(1))
    next
      case (Cons m ms)
      obtain e gs where m: "m = (e, gs)" by (cases m)
      from False Cons m "1.prems" have
        "(start, g) = (pos, gs) \<or> (start, g) \<in> set (finditer_from r t (if pos < e then e else pos + 1))"
        by (subst (asm) finditer_from.simps) simp
      then show ?thesis
      proof
        assume "(start, g) = (pos, gs)"
        with Cons m show ?thesis by auto
      next
        assume "(start, g) \<in> set (finditer_from r t (if pos < e then e else pos + 1))"
        with False Cons m show ?thesis
          by (intro "1.IH"(2) [of m ms e gs]) simp_all
      qed
    qed
  qed
qed

lemma matched_names_identifiers:
  assumes "n \<in> set (matched_names t)"
  shows "n \<noteq> [] \<and> ident_start (hd n) \<and> list_all ident_char n"
proof -
  from assms obtain start g where m: "(start, g) \<in> set (finditer TYPE_RE t)" and n: "n = group g 2"
    by (auto simp: matched_names_def)
  from m obtain e where "(e, g) \<in> set (rx_match TYPE_RE t start [])"
    unfolding finditer_def by (blast dest: finditer_from_in_match)
  from type_match_groups [OF this] n show ?thesis
    by (auto simp: group_def)
qed

end
